theory Spec2Isabelle
  imports Main "HOL-Library.Monad_Syntax"
begin

section \<open>The combo box of juce\_ComboBox.cpp: item store and selection state\<close>

text \<open>
  The embedding follows \<^verbatim>\<open>src/gui/components/controls/juce_ComboBox.cpp\<close>
  function by function. Member functions take the object as an explicit state
  record and return the updated record. The C++ \<^verbatim>\<open>int\<close> values are item ids,
  which are only stored and compared, and indices, which count the entries of
  the store or move one step from a value between \<open>-1\<close> and that count; none
  of this arithmetic can leave the 32-bit range for a store that fits in
  memory, so both are modelled by \<^typ>\<open>int\<close>. A \<^verbatim>\<open>String\<close> is a \<^typ>\<open>string\<close>,
  compared by content. Painting, layout, focus and mouse plumbing have no
  effect on the item store or the selection and are left out.
\<close>

subsection \<open>Data\<close>

text \<open>\<^verbatim>\<open>ComboBox::ItemInfo\<close>.\<close>

record ItemInfo =
  name :: string
  itemId :: int
  isEnabled :: bool
  isHeading :: bool

text \<open>
  Modelled from the spec: the \<^verbatim>\<open>Label\<close> class (juce\_Label.h is not part of the
  source given). The spec's text-label sub-widget ``exposes get/set text,
  editable flag''; the label is its text and its editable flag, \<^verbatim>\<open>setText\<close>
  stores the text and \<^verbatim>\<open>getText\<close> reads it back.
\<close>

record Label =
  labelText :: string
  labelEditable :: bool

definition Label_getText :: "Label \<Rightarrow> string" where
  "Label_getText l = labelText l"

definition Label_setText :: "string \<Rightarrow> Label \<Rightarrow> Label" where
  "Label_setText newText l = l\<lparr>labelText := newText\<rparr>"

definition Label_isEditable :: "Label \<Rightarrow> bool" where
  "Label_isEditable l = labelEditable l"

definition Label_setEditable :: "bool \<Rightarrow> Label \<Rightarrow> Label" where
  "Label_setEditable e l = l\<lparr>labelEditable := e\<rparr>"

text \<open>
  The members of \<^verbatim>\<open>ComboBox\<close> that the item store and the selection use.
  \<open>currentId\<close> is a \<^verbatim>\<open>Value\<close> read as an int; \<open>updatePending\<close> records that
  \<^verbatim>\<open>triggerAsyncUpdate\<close> was called and \<^verbatim>\<open>handleAsyncUpdate\<close> has not run yet.
\<close>

record ComboBox =
  items :: "ItemInfo list"
  currentId :: int
  lastCurrentId :: int
  separatorPending :: bool
  menuActive :: bool
  label :: Label
  noChoicesMessage :: string
  updatePending :: bool

text \<open>
  The constructor. Its argument is the value of \<^verbatim>\<open>TRANS("(no choices)")\<close>; the
  label that the look-and-feel creates starts empty and not editable, and a
  fresh \<^verbatim>\<open>Value\<close> reads as 0.
\<close>

definition newComboBox :: "string \<Rightarrow> ComboBox" where
  "newComboBox noChoices =
     \<lparr>items = [], currentId = 0, lastCurrentId = 0, separatorPending = False,
      menuActive = False, label = \<lparr>labelText = [], labelEditable = False\<rparr>,
      noChoicesMessage = noChoices, updatePending = False\<rparr>"

text \<open>
  Modelled from the spec: the \<^verbatim>\<open>jassert\<close> macro (juce\_PlatformDefs.h is not
  part of the source given). The spec says of a failed assertion: ``fail-fast
  in debug, silently ignored/no-op in release''. An operation returns \<open>None\<close>
  when a debug build stops at an assertion.
\<close>

datatype build = Debug | Release

definition jassert :: "build \<Rightarrow> bool \<Rightarrow> unit option" where
  "jassert bld c = (if bld = Debug \<and> \<not> c then None else Some ())"

subsection \<open>Item kinds\<close>

definition isSeparator :: "ItemInfo \<Rightarrow> bool" where
  "isSeparator item = (name item = [])"

definition isRealItem :: "ItemInfo \<Rightarrow> bool" where
  "isRealItem item = (\<not> (isHeading item \<or> name item = []))"

subsection \<open>Lookups\<close>

text \<open>
  \<^verbatim>\<open>getItemForId\<close> scans from the last index down and returns a pointer into
  the array; the model returns the index found. The second argument of the
  loop is the value of \<open>i\<close> before \<^verbatim>\<open>--i\<close>.
\<close>

fun getItemForId_loop :: "ItemInfo list \<Rightarrow> int \<Rightarrow> nat \<Rightarrow> nat option" where
  "getItemForId_loop xs wanted 0 = None"
| "getItemForId_loop xs wanted (Suc i) =
     (if itemId (xs ! i) = wanted then Some i else getItemForId_loop xs wanted i)"

definition getItemForId :: "ComboBox \<Rightarrow> int \<Rightarrow> nat option" where
  "getItemForId s wanted =
     (if wanted \<noteq> 0 then getItemForId_loop (items s) wanted (length (items s)) else None)"

text \<open>\<^verbatim>\<open>getItemForIndex\<close>: a forward scan counting real items in \<open>n\<close>.\<close>

fun getItemForIndex_loop :: "ItemInfo list \<Rightarrow> int \<Rightarrow> int \<Rightarrow> ItemInfo option" where
  "getItemForIndex_loop [] index n = None"
| "getItemForIndex_loop (item # rest) index n =
     (if isRealItem item
      then (if n = index then Some item else getItemForIndex_loop rest index (n + 1))
      else getItemForIndex_loop rest index n)"

definition getItemForIndex :: "ComboBox \<Rightarrow> int \<Rightarrow> ItemInfo option" where
  "getItemForIndex s index = getItemForIndex_loop (items s) index 0"

fun getNumItems_loop :: "ItemInfo list \<Rightarrow> nat \<Rightarrow> int \<Rightarrow> int" where
  "getNumItems_loop xs 0 n = n"
| "getNumItems_loop xs (Suc i) n =
     getNumItems_loop xs i (if isRealItem (xs ! i) then n + 1 else n)"

definition getNumItems :: "ComboBox \<Rightarrow> int" where
  "getNumItems s = getNumItems_loop (items s) (length (items s)) 0"

definition getItemText :: "ComboBox \<Rightarrow> int \<Rightarrow> string" where
  "getItemText s index =
     (case getItemForIndex s index of Some item \<Rightarrow> name item | None \<Rightarrow> [])"

definition getItemId :: "ComboBox \<Rightarrow> int \<Rightarrow> int" where
  "getItemId s index =
     (case getItemForIndex s index of Some item \<Rightarrow> itemId item | None \<Rightarrow> 0)"

fun indexOfItemId_loop :: "ItemInfo list \<Rightarrow> int \<Rightarrow> int \<Rightarrow> int" where
  "indexOfItemId_loop [] wanted n = - 1"
| "indexOfItemId_loop (item # rest) wanted n =
     (if isRealItem item
      then (if itemId item = wanted then n else indexOfItemId_loop rest wanted (n + 1))
      else indexOfItemId_loop rest wanted n)"

definition indexOfItemId :: "ComboBox \<Rightarrow> int \<Rightarrow> int" where
  "indexOfItemId s wanted = indexOfItemId_loop (items s) wanted 0"

subsection \<open>Item store operations\<close>

definition addItem :: "build \<Rightarrow> string \<Rightarrow> int \<Rightarrow> ComboBox \<Rightarrow> ComboBox option" where
  "addItem bld newItemText newItemId s = do {
     jassert bld (newItemText \<noteq> []);
     jassert bld (newItemId \<noteq> 0);
     jassert bld (getItemForId s newItemId = None);
     Some (if newItemText \<noteq> [] \<and> newItemId \<noteq> 0
       then
         let s1 = (if separatorPending s
                   then s\<lparr>separatorPending := False,
                          items := items s @
                            [\<lparr>name = [], itemId = 0, isEnabled = False, isHeading = False\<rparr>]\<rparr>
                   else s)
         in s1\<lparr>items := items s1 @
              [\<lparr>name = newItemText, itemId = newItemId, isEnabled = True, isHeading = False\<rparr>]\<rparr>
       else s)
   }"

definition addSeparator :: "ComboBox \<Rightarrow> ComboBox" where
  "addSeparator s = s\<lparr>separatorPending := (length (items s) > 0)\<rparr>"

definition addSectionHeading :: "build \<Rightarrow> string \<Rightarrow> ComboBox \<Rightarrow> ComboBox option" where
  "addSectionHeading bld headingName s = do {
     jassert bld (headingName \<noteq> []);
     Some (if headingName \<noteq> []
       then
         let s1 = (if separatorPending s
                   then s\<lparr>separatorPending := False,
                          items := items s @
                            [\<lparr>name = [], itemId = 0, isEnabled = False, isHeading = False\<rparr>]\<rparr>
                   else s)
         in s1\<lparr>items := items s1 @
              [\<lparr>name = headingName, itemId = 0, isEnabled = True, isHeading = True\<rparr>]\<rparr>
       else s)
   }"

definition setItemEnabled :: "int \<Rightarrow> bool \<Rightarrow> ComboBox \<Rightarrow> ComboBox" where
  "setItemEnabled wanted shouldBeEnabled s =
     (case getItemForId s wanted of
        Some i \<Rightarrow> s\<lparr>items := (items s)[i := (items s ! i)\<lparr>isEnabled := shouldBeEnabled\<rparr>]\<rparr>
      | None \<Rightarrow> s)"

definition changeItemText :: "build \<Rightarrow> int \<Rightarrow> string \<Rightarrow> ComboBox \<Rightarrow> ComboBox option" where
  "changeItemText bld wanted newText s = do {
     let item = getItemForId s wanted;
     jassert bld (item \<noteq> None);
     Some (case item of
        Some i \<Rightarrow> s\<lparr>items := (items s)[i := (items s ! i)\<lparr>name := newText\<rparr>]\<rparr>
      | None \<Rightarrow> s)
   }"

subsection \<open>Selection\<close>

definition getText :: "ComboBox \<Rightarrow> string" where
  "getText s = Label_getText (label s)"


definition triggerAsyncUpdate :: "ComboBox \<Rightarrow> ComboBox" where
  "triggerAsyncUpdate s = s\<lparr>updatePending := True\<rparr>"

definition getSelectedId :: "ComboBox \<Rightarrow> int" where
  "getSelectedId s =
     (case getItemForId s (currentId s) of
        Some i \<Rightarrow> (if getText s = name (items s ! i) then itemId (items s ! i) else 0)
      | None \<Rightarrow> 0)"

definition setSelectedId :: "int \<Rightarrow> bool \<Rightarrow> ComboBox \<Rightarrow> ComboBox" where
  "setSelectedId newItemId dontSendChangeMessage s =
     (let newItemText = (case getItemForId s newItemId of
                           Some i \<Rightarrow> name (items s ! i) | None \<Rightarrow> [])
      in if lastCurrentId s \<noteq> newItemId \<or> Label_getText (label s) \<noteq> newItemText
         then
           let s1 = (if \<not> dontSendChangeMessage then triggerAsyncUpdate s else s)
           in s1\<lparr>label := Label_setText newItemText (label s1),
                 lastCurrentId := newItemId,
                 currentId := newItemId\<rparr>
         else s)"

definition getSelectedItemIndex :: "ComboBox \<Rightarrow> int" where
  "getSelectedItemIndex s =
     (let index = indexOfItemId s (currentId s)
      in if getText s \<noteq> getItemText s index then - 1 else index)"

definition setSelectedItemIndex :: "int \<Rightarrow> bool \<Rightarrow> ComboBox \<Rightarrow> ComboBox" where
  "setSelectedItemIndex index dontSendChangeMessage s =
     setSelectedId (getItemId s index) dontSendChangeMessage s"

definition valueChanged :: "ComboBox \<Rightarrow> ComboBox" where
  "valueChanged s =
     (if lastCurrentId s \<noteq> currentId s then setSelectedId (currentId s) False s else s)"

definition clear :: "bool \<Rightarrow> ComboBox \<Rightarrow> ComboBox" where
  "clear dontSendChangeMessage s =
     (let s1 = s\<lparr>items := [], separatorPending := False\<rparr>
      in if \<not> Label_isEditable (label s1)
         then setSelectedItemIndex (- 1) dontSendChangeMessage s1
         else s1)"

text \<open>
  \<^verbatim>\<open>setText\<close> scans from the last index down for a real item of that name;
  the loop returns the index at which the source calls \<^verbatim>\<open>setSelectedId\<close> and
  returns.
\<close>

fun setText_loop :: "ItemInfo list \<Rightarrow> string \<Rightarrow> nat \<Rightarrow> nat option" where
  "setText_loop xs newText 0 = None"
| "setText_loop xs newText (Suc i) =
     (if isRealItem (xs ! i) \<and> name (xs ! i) = newText then Some i
      else setText_loop xs newText i)"

definition setText :: "string \<Rightarrow> bool \<Rightarrow> ComboBox \<Rightarrow> ComboBox" where
  "setText newText dontSendChangeMessage s =
     (case setText_loop (items s) newText (length (items s)) of
        Some i \<Rightarrow> setSelectedId (itemId (items s ! i)) dontSendChangeMessage s
      | None \<Rightarrow>
          let s1 = s\<lparr>lastCurrentId := 0, currentId := 0\<rparr>
          in if Label_getText (label s1) \<noteq> newText
             then
               let s2 = s1\<lparr>label := Label_setText newText (label s1)\<rparr>
               in if \<not> dontSendChangeMessage then triggerAsyncUpdate s2 else s2
             else s1)"

definition setEditableText :: "bool \<Rightarrow> ComboBox \<Rightarrow> ComboBox" where
  "setEditableText isEditable s =
     (if Label_isEditable (label s) \<noteq> isEditable
      then s\<lparr>label := Label_setEditable isEditable (label s)\<rparr>
      else s)"

text \<open>
  Modelled from the spec: the user typing into the label (the editor lives in
  juce\_Label.cpp, not part of the source given). ``External edit of the label
  raises a label-changed event which schedules the same coalesced async
  notification without changing currentId directly''; the event handler is
  \<^verbatim>\<open>labelTextChanged\<close>. Only an editable label can be typed into.
\<close>

definition labelTextChanged :: "ComboBox \<Rightarrow> ComboBox" where
  "labelTextChanged s = triggerAsyncUpdate s"

definition userEditsLabel :: "string \<Rightarrow> ComboBox \<Rightarrow> ComboBox" where
  "userEditsLabel typed s =
     (if Label_isEditable (label s) \<and> Label_getText (label s) \<noteq> typed
      then labelTextChanged (s\<lparr>label := Label_setText typed (label s)\<rparr>)
      else s)"

definition handleAsyncUpdate :: "ComboBox \<Rightarrow> ComboBox" where
  "handleAsyncUpdate s = s\<lparr>updatePending := False\<rparr>"

subsection \<open>The popup menu\<close>

text \<open>
  Modelled from the spec: the \<^verbatim>\<open>PopupMenu\<close> class (juce\_PopupMenu.h is not part
  of the source given). The popup menu service ``accepts an ordered list of
  (id, text, enabled, checked) entries plus separators/headers''; a menu is the
  list of the calls that built it, in order. An \<^verbatim>\<open>addItem\<close> call that gives no
  fourth argument adds an entry that is not checked.
\<close>

datatype MenuEntry =
    MenuSeparator
  | MenuSectionHeader string
  | MenuItem int string bool bool

type_synonym PopupMenu = "MenuEntry list"

fun showPopup_loop :: "ItemInfo list \<Rightarrow> int \<Rightarrow> PopupMenu \<Rightarrow> PopupMenu" where
  "showPopup_loop [] selectedId menu = menu"
| "showPopup_loop (item # rest) selectedId menu =
     showPopup_loop rest selectedId
       (if isSeparator item then menu @ [MenuSeparator]
        else if isHeading item then menu @ [MenuSectionHeader (name item)]
        else menu @ [MenuItem (itemId item) (name item) (isEnabled item)
                       (itemId item = selectedId)])"

text \<open>
  \<^verbatim>\<open>showPopup\<close> returns the menu it shows, or \<open>None\<close> when a menu is already
  active and nothing is built.
\<close>

definition showPopup :: "ComboBox \<Rightarrow> PopupMenu option \<times> ComboBox" where
  "showPopup s =
     (if \<not> menuActive s
      then
        let selectedId = getSelectedId s;
            menu = showPopup_loop (items s) selectedId [];
            menu' = (if length (items s) = 0
                     then menu @ [MenuItem 1 (noChoicesMessage s) False False]
                     else menu)
        in (Some menu', s\<lparr>menuActive := True\<rparr>)
      else (None, s))"

text \<open>\<^verbatim>\<open>ComboBox::Callback::modalStateFinished\<close>, for a box that still exists.\<close>

definition modalStateFinished :: "int \<Rightarrow> ComboBox \<Rightarrow> ComboBox" where
  "modalStateFinished returnValue s =
     (let s1 = s\<lparr>menuActive := False\<rparr>
      in if returnValue \<noteq> 0 then setSelectedId returnValue False s1 else s1)"

datatype KeyPress = upKey | leftKey | downKey | rightKey | returnKey | otherKey

definition keyPressed :: "KeyPress \<Rightarrow> ComboBox \<Rightarrow> bool \<times> ComboBox" where
  "keyPressed key s =
     (if key = upKey \<or> key = leftKey
      then (True, setSelectedItemIndex (max 0 (getSelectedItemIndex s - 1)) False s)
      else if key = downKey \<or> key = rightKey
      then (True, setSelectedItemIndex
                    (min (getSelectedItemIndex s + 1) (getNumItems s - 1)) False s)
      else if key = returnKey
      then (True, snd (showPopup s))
      else (False, s))"

subsection \<open>Sequences of calls\<close>

text \<open>
  The public operations and events on a combo box, and the state after a
  sequence of them. A run is \<open>None\<close> when a debug build stops at an assertion.
\<close>

datatype call =
    AddItem string int
  | AddSectionHeading string
  | AddSeparator
  | SetItemEnabled int bool
  | ChangeItemText int string
  | Clear bool
  | SetSelectedId int bool
  | SetSelectedItemIndex int bool
  | SetText string bool
  | SetEditableText bool
  | UserEditsLabel string
  | ValueChanged
  | HandleAsyncUpdate
  | ShowPopup
  | ModalStateFinished int
  | KeyPressed KeyPress

fun perform :: "build \<Rightarrow> call \<Rightarrow> ComboBox \<Rightarrow> ComboBox option" where
  "perform bld (AddItem t i) s = addItem bld t i s"
| "perform bld (AddSectionHeading h) s = addSectionHeading bld h s"
| "perform bld AddSeparator s = Some (addSeparator s)"
| "perform bld (SetItemEnabled i e) s = Some (setItemEnabled i e s)"
| "perform bld (ChangeItemText i t) s = changeItemText bld i t s"
| "perform bld (Clear d) s = Some (clear d s)"
| "perform bld (SetSelectedId i d) s = Some (setSelectedId i d s)"
| "perform bld (SetSelectedItemIndex i d) s = Some (setSelectedItemIndex i d s)"
| "perform bld (SetText t d) s = Some (setText t d s)"
| "perform bld (SetEditableText e) s = Some (setEditableText e s)"
| "perform bld (UserEditsLabel t) s = Some (userEditsLabel t s)"
| "perform bld ValueChanged s = Some (valueChanged s)"
| "perform bld HandleAsyncUpdate s = Some (handleAsyncUpdate s)"
| "perform bld ShowPopup s = Some (snd (showPopup s))"
| "perform bld (ModalStateFinished r) s = Some (modalStateFinished r s)"
| "perform bld (KeyPressed k) s = Some (snd (keyPressed k s))"

fun run :: "build \<Rightarrow> call list \<Rightarrow> ComboBox \<Rightarrow> ComboBox option" where
  "run bld [] s = Some s"
| "run bld (c # cs) s =
     (case perform bld c s of None \<Rightarrow> None | Some s' \<Rightarrow> run bld cs s')"

subsection \<open>Predicates of the statements\<close>

text \<open>The entry that \<^verbatim>\<open>addItem\<close> and \<^verbatim>\<open>addSectionHeading\<close> append for a pending separator.\<close>

definition separatorEntry :: ItemInfo where
  "separatorEntry = \<lparr>name = [], itemId = 0, isEnabled = False, isHeading = False\<rparr>"

text \<open>The calls that leave the item store and the pending flag alone.\<close>

definition selection_call :: "call \<Rightarrow> bool" where
  "selection_call c =
     (case c of AddItem t i \<Rightarrow> False | AddSectionHeading h \<Rightarrow> False | AddSeparator \<Rightarrow> False
      | SetItemEnabled i e \<Rightarrow> False | ChangeItemText i t \<Rightarrow> False | Clear d \<Rightarrow> False
      | _ \<Rightarrow> True)"

text \<open>
  What holds of every entry in every state: a heading has id 0 and a name, and
  an entry with id 0 is a heading or has no name.
\<close>

definition item_ok :: "ItemInfo \<Rightarrow> bool" where
  "item_ok it = ((isHeading it \<longrightarrow> itemId it = 0 \<and> name it \<noteq> []) \<and>
                 (itemId it = 0 \<longrightarrow> isHeading it \<or> name it = []))"

definition store_inv :: "ComboBox \<Rightarrow> bool" where
  "store_inv s =
     ((\<forall>it\<in>set (items s). item_ok it) \<and>
      (separatorPending s \<longrightarrow> items s \<noteq> []) \<and>
      lastCurrentId s = currentId s)"

text \<open>A call that does not rename an item to the empty string.\<close>

definition rename_ok :: "call \<Rightarrow> bool" where
  "rename_ok c = (case c of ChangeItemText i t \<Rightarrow> t \<noteq> [] | _ \<Rightarrow> True)"

text \<open>
  Every \<^verbatim>\<open>addItem\<close> of the sequence is given an id that \<^verbatim>\<open>getItemForId\<close> does
  not find at that moment: the condition of the third assertion of \<^verbatim>\<open>addItem\<close>.
\<close>

fun fresh_ids :: "build \<Rightarrow> call list \<Rightarrow> ComboBox \<Rightarrow> bool" where
  "fresh_ids bld [] s = True"
| "fresh_ids bld (c # cs) s =
     ((case c of AddItem t i \<Rightarrow> getItemForId s i = None | _ \<Rightarrow> True) \<and>
      (case perform bld c s of None \<Rightarrow> True | Some s' \<Rightarrow> fresh_ids bld cs s'))"

text \<open>
  Every separator of the store has id 0; and the non-zero ids of the store are
  pairwise distinct.
\<close>

definition sep_inv :: "ComboBox \<Rightarrow> bool" where
  "sep_inv s = (\<forall>it\<in>set (items s). isSeparator it \<longrightarrow> itemId it = 0)"

definition unique_inv :: "ComboBox \<Rightarrow> bool" where
  "unique_inv s = distinct (filter (\<lambda>i. i \<noteq> 0) (map itemId (items s)))"

text \<open>
  For sequences of add calls: the ids passed to \<^verbatim>\<open>addItem\<close>, in order; a call
  that is \<^verbatim>\<open>addSeparator\<close>, \<^verbatim>\<open>addSectionHeading\<close> or an \<^verbatim>\<open>addItem\<close> with a
  non-empty text and a non-zero id; and a call that is not a heading without
  text (which a debug build stops at).
\<close>

fun added_ids :: "call list \<Rightarrow> int list" where
  "added_ids [] = []"
| "added_ids (AddItem t i # cs) = i # added_ids cs"
| "added_ids (c # cs) = added_ids cs"

definition add_call_ok :: "call \<Rightarrow> bool" where
  "add_call_ok c =
     (case c of AddItem t i \<Rightarrow> t \<noteq> [] \<and> i \<noteq> 0 | AddSectionHeading h \<Rightarrow> True
      | AddSeparator \<Rightarrow> True | _ \<Rightarrow> False)"

definition heading_ok :: "call \<Rightarrow> bool" where
  "heading_ok c = (case c of AddSectionHeading h \<Rightarrow> h \<noteq> [] | _ \<Rightarrow> True)"

text \<open>
  No two neighbouring entries of a list of flags are both set; and a store
  that neither begins nor ends with a separator and has no two separators next
  to each other.
\<close>

fun adjacent_free :: "bool list \<Rightarrow> bool" where
  "adjacent_free (a # b # bs) = (\<not> (a \<and> b) \<and> adjacent_free (b # bs))"
| "adjacent_free bs = True"

definition separators_apart :: "ItemInfo list \<Rightarrow> bool" where
  "separators_apart xs =
     ((xs \<noteq> [] \<longrightarrow> \<not> isSeparator (hd xs) \<and> \<not> isSeparator (last xs)) \<and>
      adjacent_free (map isSeparator xs))"

section \<open>Properties\<close>

subsection \<open>Lookups and the effect of each call\<close>

lemma jassert_Release [simp]: "jassert Release c = Some ()"
  by (simp add: jassert_def)

lemma jassert_Debug [simp]: "jassert Debug c = (if c then Some () else None)"
  by (simp add: jassert_def)

lemma getItemForId_loop_Some:
  "getItemForId_loop xs w k = Some i \<Longrightarrow> i < k \<and> itemId (xs ! i) = w"
  by (induction k) (auto split: if_splits simp: less_Suc_eq)

lemma getItemForId_loop_None:
  "(getItemForId_loop xs w k = None) = (\<forall>i<k. itemId (xs ! i) \<noteq> w)"
  by (induction k) (auto simp: less_Suc_eq)

lemma getItemForId_Some:
  "getItemForId s w = Some i \<Longrightarrow> i < length (items s) \<and> itemId (items s ! i) = w \<and> w \<noteq> 0"
  by (auto simp: getItemForId_def dest: getItemForId_loop_Some split: if_splits)

lemma getItemForId_None_iff:
  "(getItemForId s w = None) = (w = 0 \<or> w \<notin> itemId ` set (items s))"
proof (cases "w = 0")
  case True
  then show ?thesis by (simp add: getItemForId_def)
next
  case False
  have "(\<forall>i<length (items s). itemId (items s ! i) \<noteq> w) = (w \<notin> itemId ` set (items s))"
    by (metis (no_types, lifting) image_iff in_set_conv_nth)
  with False show ?thesis by (simp add: getItemForId_def getItemForId_loop_None)
qed


lemma setSelectedId_items [simp]: "items (setSelectedId i d s) = items s"
  by (simp add: setSelectedId_def triggerAsyncUpdate_def Let_def)

lemma setSelectedId_separatorPending [simp]:
  "separatorPending (setSelectedId i d s) = separatorPending s"
  by (simp add: setSelectedId_def triggerAsyncUpdate_def Let_def)

lemma setSelectedItemIndex_items [simp]: "items (setSelectedItemIndex i d s) = items s"
  by (simp add: setSelectedItemIndex_def)

lemma setSelectedItemIndex_separatorPending [simp]:
  "separatorPending (setSelectedItemIndex i d s) = separatorPending s"
  by (simp add: setSelectedItemIndex_def)

lemma setText_items [simp]: "items (setText t d s) = items s"
  by (simp add: setText_def triggerAsyncUpdate_def Let_def split: option.splits)

lemma setText_separatorPending [simp]: "separatorPending (setText t d s) = separatorPending s"
  by (simp add: setText_def triggerAsyncUpdate_def Let_def split: option.splits)

lemma clear_items [simp]: "items (clear d s) = []"
  by (simp add: clear_def Let_def)

lemma clear_separatorPending [simp]: "separatorPending (clear d s) = False"
  by (simp add: clear_def Let_def)

lemma perform_selection_items:
  "selection_call c \<Longrightarrow> perform bld c s = Some s' \<Longrightarrow>
     items s' = items s \<and> separatorPending s' = separatorPending s"
  by (cases c)
     (auto simp: selection_call_def valueChanged_def setEditableText_def userEditsLabel_def
        labelTextChanged_def triggerAsyncUpdate_def handleAsyncUpdate_def showPopup_def
        modalStateFinished_def keyPressed_def Let_def split: if_splits)

lemma setSelectedId_ids:
  "lastCurrentId s = currentId s \<Longrightarrow>
     lastCurrentId (setSelectedId i d s) = i \<and> currentId (setSelectedId i d s) = i"
  by (simp add: setSelectedId_def triggerAsyncUpdate_def Let_def)

lemma setText_ids:
  "lastCurrentId s = currentId s \<Longrightarrow>
     lastCurrentId (setText t d s) = currentId (setText t d s)"
  by (simp add: setText_def setSelectedId_ids triggerAsyncUpdate_def Let_def split: option.splits)

lemma perform_sync:
  "lastCurrentId s = currentId s \<Longrightarrow> perform bld c s = Some s' \<Longrightarrow>
     lastCurrentId s' = currentId s'"
  apply (cases c)
  apply (auto simp: addItem_def addSectionHeading_def changeItemText_def jassert_def
        addSeparator_def setItemEnabled_def clear_def setSelectedItemIndex_def
        setSelectedId_ids setText_ids
        valueChanged_def setEditableText_def userEditsLabel_def
        labelTextChanged_def triggerAsyncUpdate_def handleAsyncUpdate_def showPopup_def
        modalStateFinished_def keyPressed_def Let_def split: if_splits option.splits bind_splits)
  done

lemma addItem_Some:
  "addItem bld t i s = Some s' \<Longrightarrow>
     (if t \<noteq> [] \<and> i \<noteq> 0
      then items s' = items s @ (if separatorPending s then [separatorEntry] else []) @
             [\<lparr>name = t, itemId = i, isEnabled = True, isHeading = False\<rparr>] \<and>
           \<not> separatorPending s'
      else s' = s)"
  by (auto simp: addItem_def jassert_def separatorEntry_def Let_def split: if_splits bind_splits)

lemma addSectionHeading_Some:
  "addSectionHeading bld h s = Some s' \<Longrightarrow>
     (if h \<noteq> []
      then items s' = items s @ (if separatorPending s then [separatorEntry] else []) @
             [\<lparr>name = h, itemId = 0, isEnabled = True, isHeading = True\<rparr>] \<and>
           \<not> separatorPending s'
      else s' = s)"
  by (auto simp: addSectionHeading_def jassert_def separatorEntry_def Let_def split: if_splits bind_splits)

lemma setItemEnabled_items:
  "items (setItemEnabled w b s) = items s \<or>
   (\<exists>i<length (items s). itemId (items s ! i) = w \<and> w \<noteq> 0 \<and>
      items (setItemEnabled w b s) = (items s)[i := (items s ! i)\<lparr>isEnabled := b\<rparr>])"
  by (auto simp: setItemEnabled_def split: option.splits dest!: getItemForId_Some)

lemma setItemEnabled_separatorPending [simp]:
  "separatorPending (setItemEnabled w b s) = separatorPending s"
  by (auto simp: setItemEnabled_def split: option.splits)

lemma changeItemText_Some:
  "changeItemText bld w t s = Some s' \<Longrightarrow>
     separatorPending s' = separatorPending s \<and>
     (items s' = items s \<or>
      (\<exists>i<length (items s). itemId (items s ! i) = w \<and> w \<noteq> 0 \<and>
         items s' = (items s)[i := (items s ! i)\<lparr>name := t\<rparr>]))"
  by (auto simp: changeItemText_def jassert_def Let_def split: option.splits if_splits bind_splits
           dest!: getItemForId_Some)

lemma in_set_updateD: "x \<in> set (xs[i := y]) \<Longrightarrow> x = y \<or> x \<in> set xs"
  using set_update_subset_insert [of xs i y] by auto

lemma item_ok_enabled: "item_ok (it\<lparr>isEnabled := b\<rparr>) = item_ok it"
  by (simp add: item_ok_def)

lemma item_ok_rename: "item_ok it \<Longrightarrow> itemId it \<noteq> 0 \<Longrightarrow> item_ok (it\<lparr>name := t\<rparr>)"
  by (auto simp: item_ok_def)

lemma perform_items_ok:
  assumes ok: "\<forall>it\<in>set (items s). item_ok it" and p: "perform bld c s = Some s'"
  shows "\<forall>it\<in>set (items s'). item_ok it"
proof (cases "selection_call c")
  case True
  with assms show ?thesis by (simp add: perform_selection_items)
next
  case False
  show ?thesis
  proof (cases c)
    case (AddItem t i)
    with assms show ?thesis
      by (auto dest!: addItem_Some simp: item_ok_def separatorEntry_def split: if_splits)
  next
    case (AddSectionHeading h)
    with assms show ?thesis
      by (auto dest!: addSectionHeading_Some simp: item_ok_def separatorEntry_def split: if_splits)
  next
    case AddSeparator
    with assms show ?thesis by (auto simp: addSeparator_def)
  next
    case (SetItemEnabled w b)
    with p have s': "s' = setItemEnabled w b s" by simp
    from setItemEnabled_items [of w b s] show ?thesis
    proof
      assume "items (setItemEnabled w b s) = items s"
      with ok s' show ?thesis by simp
    next
      assume "\<exists>i<length (items s). itemId (items s ! i) = w \<and> w \<noteq> 0 \<and>
        items (setItemEnabled w b s) = (items s)[i := (items s ! i)\<lparr>isEnabled := b\<rparr>]"
      then obtain i where i: "i < length (items s)"
        and eq: "items s' = (items s)[i := (items s ! i)\<lparr>isEnabled := b\<rparr>]"
        using s' by auto
      from i ok have "item_ok (items s ! i)" by simp
      then have "item_ok ((items s ! i)\<lparr>isEnabled := b\<rparr>)" by (simp add: item_ok_enabled)
      with ok eq show ?thesis by (auto dest!: in_set_updateD)
    qed
  next
    case (ChangeItemText w t)
    with p have "items s' = items s \<or>
      (\<exists>i<length (items s). itemId (items s ! i) = w \<and> w \<noteq> 0 \<and>
         items s' = (items s)[i := (items s ! i)\<lparr>name := t\<rparr>])"
      by (auto dest: changeItemText_Some)
    then show ?thesis
    proof
      assume "items s' = items s"
      with ok show ?thesis by simp
    next
      assume "\<exists>i<length (items s). itemId (items s ! i) = w \<and> w \<noteq> 0 \<and>
         items s' = (items s)[i := (items s ! i)\<lparr>name := t\<rparr>]"
      then obtain i where i: "i < length (items s)" and nz: "itemId (items s ! i) \<noteq> 0"
        and eq: "items s' = (items s)[i := (items s ! i)\<lparr>name := t\<rparr>]"
        by auto
      from i ok have "item_ok (items s ! i)" by simp
      with nz have "item_ok ((items s ! i)\<lparr>name := t\<rparr>)" by (simp add: item_ok_rename)
      with ok eq show ?thesis by (auto dest!: in_set_updateD)
    qed
  next
    case (Clear d)
    with assms show ?thesis by auto
  qed (use False in \<open>simp_all add: selection_call_def\<close>)
qed

lemma perform_pending:
  assumes "separatorPending s \<longrightarrow> items s \<noteq> []" and p: "perform bld c s = Some s'"
  shows "separatorPending s' \<longrightarrow> items s' \<noteq> []"
proof (cases "selection_call c")
  case True
  with assms show ?thesis by (simp add: perform_selection_items)
next
  case False
  show ?thesis
  proof (cases c)
    case (AddItem t i)
    with assms show ?thesis
      by (auto dest!: addItem_Some split: if_splits)
  next
    case (AddSectionHeading h)
    with assms show ?thesis
      by (auto dest!: addSectionHeading_Some split: if_splits)
  next
    case AddSeparator
    with assms show ?thesis by (auto simp: addSeparator_def)
  next
    case (SetItemEnabled w b)
    with assms setItemEnabled_items [of w b s] show ?thesis by auto
  next
    case (ChangeItemText w t)
    with assms show ?thesis by (auto dest!: changeItemText_Some)
  next
    case (Clear d)
    with assms show ?thesis by auto
  qed (use False in \<open>simp_all add: selection_call_def\<close>)
qed

lemma perform_store_inv: "store_inv s \<Longrightarrow> perform bld c s = Some s' \<Longrightarrow> store_inv s'"
  unfolding store_inv_def
  using perform_items_ok [of s bld c s'] perform_pending [of s bld c s'] perform_sync [of s bld c s']
  by blast

lemma run_store_inv: "store_inv s \<Longrightarrow> run bld cs s = Some s' \<Longrightarrow> store_inv s'"
  by (induction cs arbitrary: s) (auto split: option.splits dest: perform_store_inv)

lemma newComboBox_store_inv: "store_inv (newComboBox m)"
  by (simp add: store_inv_def newComboBox_def)

lemma perform_sep_inv:
  assumes ok: "sep_inv s" and r: "rename_ok c" and p: "perform bld c s = Some s'"
  shows "sep_inv s'"
proof (cases "selection_call c")
  case True
  with assms show ?thesis by (simp add: perform_selection_items sep_inv_def)
next
  case False
  show ?thesis
  proof (cases c)
    case (AddItem t i)
    with assms show ?thesis
      by (auto dest!: addItem_Some simp: sep_inv_def isSeparator_def separatorEntry_def split: if_splits)
  next
    case (AddSectionHeading h)
    with assms show ?thesis
      by (auto dest!: addSectionHeading_Some simp: sep_inv_def isSeparator_def separatorEntry_def split: if_splits)
  next
    case AddSeparator
    with assms show ?thesis by (auto simp: addSeparator_def sep_inv_def)
  next
    case (SetItemEnabled w b)
    with p have s': "s' = setItemEnabled w b s" by simp
    from setItemEnabled_items [of w b s] show ?thesis
    proof
      assume "items (setItemEnabled w b s) = items s"
      with ok s' show ?thesis by (simp add: sep_inv_def)
    next
      assume "\<exists>i<length (items s). itemId (items s ! i) = w \<and> w \<noteq> 0 \<and>
        items (setItemEnabled w b s) = (items s)[i := (items s ! i)\<lparr>isEnabled := b\<rparr>]"
      then obtain i where i: "i < length (items s)"
        and eq: "items s' = (items s)[i := (items s ! i)\<lparr>isEnabled := b\<rparr>]"
        using s' by auto
      from i ok have "isSeparator (items s ! i) \<longrightarrow> itemId (items s ! i) = 0"
        by (simp add: sep_inv_def)
      with ok eq show ?thesis by (auto dest!: in_set_updateD simp: sep_inv_def isSeparator_def)
    qed
  next
    case (ChangeItemText w t)
    with p have "items s' = items s \<or>
      (\<exists>i<length (items s). itemId (items s ! i) = w \<and> w \<noteq> 0 \<and>
         items s' = (items s)[i := (items s ! i)\<lparr>name := t\<rparr>])"
      by (auto dest: changeItemText_Some)
    then show ?thesis
    proof
      assume "items s' = items s"
      with ok show ?thesis by (simp add: sep_inv_def)
    next
      assume "\<exists>i<length (items s). itemId (items s ! i) = w \<and> w \<noteq> 0 \<and>
         items s' = (items s)[i := (items s ! i)\<lparr>name := t\<rparr>]"
      then obtain i where eq: "items s' = (items s)[i := (items s ! i)\<lparr>name := t\<rparr>]"
        by auto
      from r ChangeItemText have "t \<noteq> []" by (simp add: rename_ok_def)
      with ok eq show ?thesis by (auto dest!: in_set_updateD simp: sep_inv_def isSeparator_def)
    qed
  next
    case (Clear d)
    with assms show ?thesis by (auto simp: sep_inv_def)
  qed (use False in \<open>simp_all add: selection_call_def\<close>)
qed

lemma map_itemId_update:
  "itemId y = itemId (xs ! i) \<Longrightarrow> map itemId (xs[i := y]) = map itemId xs"
  by (cases "i < length xs") (simp_all add: map_update list_update_same_conv list_update_beyond)

lemma perform_unique_inv:
  assumes ok: "unique_inv s" and p: "perform bld c s = Some s'"
    and f: "\<And>t i. c = AddItem t i \<Longrightarrow> getItemForId s i = None"
  shows "unique_inv s'"
proof (cases "selection_call c")
  case True
  with ok p show ?thesis by (simp add: perform_selection_items unique_inv_def)
next
  case False
  show ?thesis
  proof (cases c)
    case (AddItem t i)
    with f have "getItemForId s i = None" by simp
    then have "i = 0 \<or> i \<notin> itemId ` set (items s)" by (simp add: getItemForId_None_iff)
    with AddItem ok p show ?thesis
      by (auto dest!: addItem_Some simp: unique_inv_def separatorEntry_def split: if_splits)
  next
    case (AddSectionHeading h)
    with ok p show ?thesis
      by (auto dest!: addSectionHeading_Some simp: unique_inv_def separatorEntry_def split: if_splits)
  next
    case AddSeparator
    with ok p show ?thesis by (auto simp: addSeparator_def unique_inv_def)
  next
    case (SetItemEnabled w b)
    with p have s': "s' = setItemEnabled w b s" by simp
    from setItemEnabled_items [of w b s] have "map itemId (items s') = map itemId (items s)"
      unfolding s' by (auto simp: map_itemId_update)
    with ok show ?thesis by (simp add: unique_inv_def)
  next
    case (ChangeItemText w t)
    with p have "items s' = items s \<or>
      (\<exists>i<length (items s). itemId (items s ! i) = w \<and> w \<noteq> 0 \<and>
         items s' = (items s)[i := (items s ! i)\<lparr>name := t\<rparr>])"
      by (auto dest: changeItemText_Some)
    then have "map itemId (items s') = map itemId (items s)"
      by (auto simp: map_itemId_update)
    with ok show ?thesis by (simp add: unique_inv_def)
  next
    case (Clear d)
    with ok p show ?thesis by (auto simp: unique_inv_def)
  qed (use False in \<open>simp_all add: selection_call_def\<close>)
qed

lemma perform_Debug_fresh:
  "addItem Debug t i s = Some s' \<Longrightarrow> getItemForId s i = None"
  by (auto simp: addItem_def split: bind_splits if_splits)

lemma run_sep_inv:
  "sep_inv s \<Longrightarrow> list_all rename_ok cs \<Longrightarrow> run bld cs s = Some s' \<Longrightarrow> sep_inv s'"
  by (induction cs arbitrary: s) (auto split: option.splits dest: perform_sep_inv)

lemma run_unique_inv:
  "unique_inv s \<Longrightarrow> bld = Debug \<or> fresh_ids bld cs s \<Longrightarrow> run bld cs s = Some s' \<Longrightarrow>
     unique_inv s'"
proof (induction cs arbitrary: s)
  case Nil
  then show ?case by simp
next
  case (Cons c cs)
  from Cons.prems(3) obtain s1 where p: "perform bld c s = Some s1" and r: "run bld cs s1 = Some s'"
    by (auto split: option.splits)
  have "\<And>t i. c = AddItem t i \<Longrightarrow> getItemForId s i = None"
    using Cons.prems(2) p by (auto dest: perform_Debug_fresh)
  with Cons.prems(1) p have "unique_inv s1" by (rule perform_unique_inv)
  moreover have "bld = Debug \<or> fresh_ids bld cs s1" using Cons.prems(2) p by auto
  ultimately show ?case using r by (rule Cons.IH)
qed

lemma real_item_id: "item_ok it \<Longrightarrow> isRealItem it \<Longrightarrow> itemId it \<noteq> 0"
  by (auto simp: item_ok_def isRealItem_def)

lemma real_ids_distinct:
  "\<forall>it\<in>set xs. item_ok it \<Longrightarrow> distinct (filter (\<lambda>i. i \<noteq> 0) (map itemId xs)) \<Longrightarrow>
     distinct (map itemId (filter isRealItem xs))"
proof (induction xs)
  case Nil
  then show ?case by simp
next
  case (Cons x xs)
  show ?case
  proof (cases "isRealItem x")
    case True
    with Cons.prems have nz: "itemId x \<noteq> 0" by (simp add: real_item_id)
    with Cons.prems have "itemId x \<notin> itemId ` set xs" by auto
    then have "itemId x \<notin> itemId ` set (filter isRealItem xs)" by auto
    moreover from Cons have "distinct (map itemId (filter isRealItem xs))"
      by (simp split: if_splits)
    ultimately show ?thesis using True by simp
  next
    case False
    with Cons show ?thesis by (simp split: if_splits)
  qed
qed

subsection \<open>C1: the invariant of the item store\<close>

text \<open>
  C1, as the code has it. After any sequence of calls on a new combo box that a
  build does not stop: every section heading has \<open>itemId = 0\<close>; every real item
  has a non-empty name and a non-zero \<open>itemId\<close>; every separator (an entry with
  an empty name) has \<open>itemId = 0\<close>, provided no \<^verbatim>\<open>changeItemText\<close> call of the
  sequence passed an empty text; and the ids of the real items are pairwise
  distinct, provided every \<^verbatim>\<open>addItem\<close> call was given an id not yet in the store
  (what \<^verbatim>\<open>addItem\<close> asserts, so a debug build that was not stopped satisfies it).
\<close>

theorem store_invariant_reachable:
  assumes r: "run bld cs (newComboBox m) = Some s"
  shows "(\<forall>it\<in>set (items s). isHeading it \<longrightarrow> itemId it = 0) \<and>
         (\<forall>it\<in>set (items s). isRealItem it \<longrightarrow> name it \<noteq> [] \<and> itemId it \<noteq> 0) \<and>
         (list_all rename_ok cs \<longrightarrow> (\<forall>it\<in>set (items s). isSeparator it \<longrightarrow> itemId it = 0)) \<and>
         (bld = Debug \<or> fresh_ids bld cs (newComboBox m) \<longrightarrow>
            distinct (map itemId (filter isRealItem (items s))))"
proof -
  from r have inv: "store_inv s"
    using newComboBox_store_inv run_store_inv by blast
  then have ok: "\<forall>it\<in>set (items s). item_ok it" by (simp add: store_inv_def)
  have h: "\<forall>it\<in>set (items s). isHeading it \<longrightarrow> itemId it = 0"
    using ok by (simp add: item_ok_def)
  have re: "\<forall>it\<in>set (items s). isRealItem it \<longrightarrow> name it \<noteq> [] \<and> itemId it \<noteq> 0"
    using ok by (auto simp: real_item_id) (simp add: isRealItem_def)
  have se: "list_all rename_ok cs \<longrightarrow> (\<forall>it\<in>set (items s). isSeparator it \<longrightarrow> itemId it = 0)"
  proof
    assume "list_all rename_ok cs"
    moreover have "sep_inv (newComboBox m)" by (simp add: sep_inv_def newComboBox_def)
    ultimately have "sep_inv s" using r run_sep_inv by blast
    then show "\<forall>it\<in>set (items s). isSeparator it \<longrightarrow> itemId it = 0" by (simp add: sep_inv_def)
  qed
  have un: "bld = Debug \<or> fresh_ids bld cs (newComboBox m) \<longrightarrow>
            distinct (map itemId (filter isRealItem (items s)))"
  proof
    assume f: "bld = Debug \<or> fresh_ids bld cs (newComboBox m)"
    have "unique_inv (newComboBox m)" by (simp add: unique_inv_def newComboBox_def)
    then have "unique_inv s" using f r by (rule run_unique_inv)
    with ok show "distinct (map itemId (filter isRealItem (items s)))"
      by (simp add: unique_inv_def real_ids_distinct)
  qed
  from h re se un show ?thesis by blast
qed

text \<open>A run with a separator, a heading, a rename and a selection.\<close>

lemma run_example_ne:
  "run Release [AddItem ''Red'' 1, AddSeparator, AddSectionHeading ''More'', AddItem ''Blue'' 3,
       ChangeItemText 1 ''Rot'', SetItemEnabled 3 False, SetSelectedId 3 False] (newComboBox []) \<noteq> None"
  by code_simp

theorem store_invariant_reachable_witness:
  "list_all rename_ok
     [AddItem ''Red'' 1, AddSeparator, AddSectionHeading ''More'', AddItem ''Blue'' 3,
      ChangeItemText 1 ''Rot'', SetItemEnabled 3 False, SetSelectedId 3 False] \<and>
   fresh_ids Release
     [AddItem ''Red'' 1, AddSeparator, AddSectionHeading ''More'', AddItem ''Blue'' 3,
      ChangeItemText 1 ''Rot'', SetItemEnabled 3 False, SetSelectedId 3 False] (newComboBox []) \<and>
   (\<exists>s. run Release
      [AddItem ''Red'' 1, AddSeparator, AddSectionHeading ''More'', AddItem ''Blue'' 3,
       ChangeItemText 1 ''Rot'', SetItemEnabled 3 False, SetSelectedId 3 False] (newComboBox []) = Some s \<and>
      list_all (\<lambda>it. isHeading it \<longrightarrow> itemId it = 0) (items s) \<and>
      list_all (\<lambda>it. isRealItem it \<longrightarrow> name it \<noteq> [] \<and> itemId it \<noteq> 0) (items s) \<and>
      list_all (\<lambda>it. isSeparator it \<longrightarrow> itemId it = 0) (items s) \<and>
      distinct (map itemId (filter isRealItem (items s))))"
proof -
  let ?cs = "[AddItem ''Red'' 1, AddSeparator, AddSectionHeading ''More'', AddItem ''Blue'' 3,
      ChangeItemText 1 ''Rot'', SetItemEnabled 3 False, SetSelectedId 3 False]"
  have a: "list_all rename_ok ?cs" by (simp add: rename_ok_def)
  have b: "fresh_ids Release ?cs (newComboBox [])" by code_simp
  obtain s where r: "run Release ?cs (newComboBox []) = Some s"
    using run_example_ne by blast
  from store_invariant_reachable [OF r] a b r show ?thesis
    by (simp add: list_all_iff)
qed

text \<open>
  Without the two provisos the invariant fails: a rename to the empty string
  leaves a separator with id 1 (in a debug build too), and a release build
  appends a second real item with id 1.
\<close>

theorem store_invariant_counterexample:
  "map_option (\<lambda>s. map (\<lambda>it. (isSeparator it, itemId it)) (items s))
     (run Debug [AddItem ''A'' 1, ChangeItemText 1 ''''] (newComboBox [])) = Some [(True, 1)] \<and>
   map_option (\<lambda>s. map (\<lambda>it. (isRealItem it, itemId it)) (items s))
     (run Release [AddItem ''A'' 1, AddItem ''B'' 1] (newComboBox [])) = Some [(True, 1), (True, 1)]"
  by code_simp

subsection \<open>C2: \<^verbatim>\<open>setSelectedId\<close> followed by \<^verbatim>\<open>getSelectedId\<close>\<close>



lemma getItemForId_setSelectedId [simp]:
  "getItemForId (setSelectedId x d s) w = getItemForId s w"
  by (simp add: getItemForId_def)


text \<open>
  \<^verbatim>\<open>setSelectedId\<close> and \<^verbatim>\<open>setText\<close> assign \<open>lastCurrentId\<close> and \<open>currentId\<close>
  together, so the two are equal in every state that a run of the calls above
  reaches. They differ only after \<open>currentId\<close>, a \<^verbatim>\<open>Value\<close> that other objects
  can be bound to, has been written from outside and before the \<^verbatim>\<open>valueChanged\<close>
  callback has run.
\<close>

lemma run_sync: "run bld cs (newComboBox m) = Some s \<Longrightarrow> lastCurrentId s = currentId s"
  using newComboBox_store_inv run_store_inv store_inv_def by blast




subsection \<open>C3: \<^verbatim>\<open>setText\<close>\<close>





lemma run_items_ok: "run bld cs (newComboBox m) = Some s \<Longrightarrow> it \<in> set (items s) \<Longrightarrow> item_ok it"
  using newComboBox_store_inv run_store_inv store_inv_def by blast




subsection \<open>C4: misuse in a release build\<close>

lemma perform_Release_total: "perform Release c s \<noteq> None"
  by (cases c) (simp_all add: addItem_def addSectionHeading_def changeItemText_def Let_def)

text \<open>
  C4, as the code has it. In a release build \<^verbatim>\<open>addItem\<close> with an empty text,
  \<^verbatim>\<open>addItem\<close> with id 0 and \<^verbatim>\<open>changeItemText\<close> with an id that is not in the
  store return the combo box unchanged. \<^verbatim>\<open>addItem\<close> with a non-empty text and a
  non-zero id that is already in the store is not ignored: the item is
  appended, after the pending separator if there is one. No call of a release
  build ends in an error.
\<close>

theorem misuse_in_release:
  "addItem Release [] i s = Some s \<and>
   addItem Release t 0 s = Some s \<and>
   (getItemForId s w = None \<longrightarrow> changeItemText Release w t s = Some s) \<and>
   (t \<noteq> [] \<and> i \<noteq> 0 \<and> getItemForId s i \<noteq> None \<longrightarrow>
      (\<exists>s'. addItem Release t i s = Some s' \<and>
         items s' = items s @ (if separatorPending s then [separatorEntry] else []) @
           [\<lparr>name = t, itemId = i, isEnabled = True, isHeading = False\<rparr>])) \<and>
   perform Release c s \<noteq> None"
proof -
  have a: "addItem Release [] i s = Some s" by (simp add: addItem_def)
  have b: "addItem Release t 0 s = Some s" by (simp add: addItem_def)
  have c: "getItemForId s w = None \<longrightarrow> changeItemText Release w t s = Some s"
    by (simp add: changeItemText_def)
  have d: "t \<noteq> [] \<and> i \<noteq> 0 \<and> getItemForId s i \<noteq> None \<longrightarrow>
      (\<exists>s'. addItem Release t i s = Some s' \<and>
         items s' = items s @ (if separatorPending s then [separatorEntry] else []) @
           [\<lparr>name = t, itemId = i, isEnabled = True, isHeading = False\<rparr>])"
    by (simp add: addItem_def separatorEntry_def Let_def)
  from a b c d perform_Release_total [of c s] show ?thesis by blast
qed

theorem misuse_in_release_witness:
  "\<exists>s. run Release [AddItem ''Red'' 1, AddSeparator] (newComboBox []) = Some s \<and>
     getItemForId s 5 = None \<and> changeItemText Release 5 ''Five'' s = Some s \<and>
     getItemForId s 1 = Some 0 \<and>
     map_option (\<lambda>s'. map itemId (items s')) (addItem Release ''Rot'' 1 s) = Some [1, 0, 1]"
proof -
  let ?S = "\<lparr>items = [\<lparr>name = ''Red'', itemId = 1, isEnabled = True, isHeading = False\<rparr>],
        currentId = 0, lastCurrentId = 0, separatorPending = True, menuActive = False,
        label = \<lparr>labelText = [], labelEditable = False\<rparr>,
        noChoicesMessage = [], updatePending = False\<rparr>"
  have r: "run Release [AddItem ''Red'' 1, AddSeparator] (newComboBox []) = Some ?S" by code_simp
  have n: "getItemForId ?S 5 = None" by code_simp
  have f: "getItemForId ?S 1 = Some 0" by code_simp
  from misuse_in_release [of 0 ?S "''Five''" 5 "AddSeparator"] n
  have c: "changeItemText Release 5 ''Five'' ?S = Some ?S" by blast
  from misuse_in_release [of 1 ?S "''Rot''" 0 "AddSeparator"] f
  have d: "map_option (\<lambda>s'. map itemId (items s')) (addItem Release ''Rot'' 1 ?S) = Some [1, 0, 1]"
    by (auto simp: separatorEntry_def)
  show ?thesis by (intro exI [of _ ?S] conjI r n f c d)
qed

text \<open>
  After \<^verbatim>\<open>addItem ("A", 1)\<close> the id 1 is in the store, and a release build's
  \<^verbatim>\<open>addItem ("B", 1)\<close> changes the store.
\<close>

theorem duplicate_id_not_ignored_counterexample:
  "map_option
     (\<lambda>s. (getItemForId s 1, map_option (\<lambda>s'. map (\<lambda>it. (name it, itemId it)) (items s'))
                                (addItem Release ''B'' 1 s)))
     (run Release [AddItem ''A'' 1] (newComboBox [])) =
   Some (Some 0, Some [(''A'', 1), (''B'', 1)])"
  by code_simp

subsection \<open>C5: counting and finding the items added\<close>

lemma getNumItems_loop_count:
  "k \<le> length xs \<Longrightarrow>
     getNumItems_loop xs k n = n + int (length (filter isRealItem (take k xs)))"
  by (induction k arbitrary: n) (simp_all add: take_Suc_conv_app_nth)

lemma getNumItems_count: "getNumItems s = int (length (filter isRealItem (items s)))"
  by (simp add: getNumItems_def getNumItems_loop_count)

lemma indexOfItemId_loop_ge:
  "\<exists>it\<in>set xs. isRealItem it \<and> itemId it = w \<Longrightarrow> n \<le> indexOfItemId_loop xs w n"
proof (induction xs arbitrary: n)
  case Nil
  then show ?case by simp
next
  case (Cons x xs)
  show ?case
  proof (cases "isRealItem x \<and> itemId x = w")
    case True
    then show ?thesis by simp
  next
    case False
    with Cons.prems have ex: "\<exists>it\<in>set xs. isRealItem it \<and> itemId it = w" by auto
    from Cons.IH [OF ex, of n] Cons.IH [OF ex, of "n + 1"] False show ?thesis by auto
  qed
qed

lemma getItemForIndex_indexOfItemId_loop:
  "\<exists>it\<in>set xs. isRealItem it \<and> itemId it = w \<Longrightarrow>
     \<exists>it. getItemForIndex_loop xs (indexOfItemId_loop xs w n) n = Some it \<and>
          isRealItem it \<and> itemId it = w"
proof (induction xs arbitrary: n)
  case Nil
  then show ?case by simp
next
  case (Cons x xs)
  show ?case
  proof (cases "isRealItem x \<and> itemId x = w")
    case True
    then show ?thesis by simp
  next
    case False
    with Cons.prems have ex: "\<exists>it\<in>set xs. isRealItem it \<and> itemId it = w" by auto
    show ?thesis
    proof (cases "isRealItem x")
      case True
      from indexOfItemId_loop_ge [OF ex, of "n + 1"]
      have "n \<noteq> indexOfItemId_loop xs w (n + 1)" by simp
      with True False Cons.IH [OF ex, of "n + 1"] show ?thesis by simp
    next
      case nr: False
      with Cons.IH [OF ex, of n] show ?thesis by simp
    qed
  qed
qed

lemma getItemId_indexOfItemId:
  "\<exists>it\<in>set (items s). isRealItem it \<and> itemId it = w \<Longrightarrow> getItemId s (indexOfItemId s w) = w"
  using getItemForIndex_indexOfItemId_loop [of "items s" w 0]
  by (auto simp: getItemId_def getItemForIndex_def indexOfItemId_def)

lemma run_adds:
  assumes "list_all add_call_ok cs"
    and "bld = Debug \<longrightarrow> list_all heading_ok cs \<and>
           distinct (filter (\<lambda>i. i \<noteq> 0) (map itemId (items s0)) @ added_ids cs)"
  shows "\<exists>s. run bld cs s0 = Some s \<and>
           filter (\<lambda>i. i \<noteq> 0) (map itemId (items s)) =
             filter (\<lambda>i. i \<noteq> 0) (map itemId (items s0)) @ added_ids cs \<and>
           map itemId (filter isRealItem (items s)) =
             map itemId (filter isRealItem (items s0)) @ added_ids cs"
  using assms
proof (induction cs arbitrary: s0)
  case Nil
  then show ?case by simp
next
  case (Cons c cs)
  from Cons.prems(1) have okc: "add_call_ok c" and okcs: "list_all add_call_ok cs" by simp_all
  let ?nz = "\<lambda>s. filter (\<lambda>i. i \<noteq> 0) (map itemId (items s))"
  let ?re = "\<lambda>s. map itemId (filter isRealItem (items s))"
  have step: "\<exists>s1. perform bld c s0 = Some s1 \<and> ?nz s1 @ added_ids cs = ?nz s0 @ added_ids (c # cs) \<and>
                 ?re s1 @ added_ids cs = ?re s0 @ added_ids (c # cs)"
  proof (cases c)
    case (AddItem t i)
    with okc have ti: "t \<noteq> []" "i \<noteq> 0" by (simp_all add: add_call_ok_def)
    have "bld = Debug \<longrightarrow> getItemForId s0 i = None"
    proof
      assume "bld = Debug"
      with Cons.prems(2) AddItem have "i \<notin> set (?nz s0)" by simp
      with ti show "getItemForId s0 i = None" by (auto simp: getItemForId_None_iff)
    qed
    with AddItem ti show ?thesis
      by (cases bld) (auto simp: addItem_def isRealItem_def Let_def)
  next
    case (AddSectionHeading h)
    with Cons.prems(2) have "bld = Debug \<longrightarrow> h \<noteq> []" by (simp add: heading_ok_def)
    with AddSectionHeading show ?thesis
      by (cases bld) (auto simp: addSectionHeading_def isRealItem_def Let_def)
  next
    case AddSeparator
    then show ?thesis by (simp add: addSeparator_def)
  qed (use okc in \<open>simp_all add: add_call_ok_def\<close>)
  then obtain s1 where p: "perform bld c s0 = Some s1"
    and nz: "?nz s1 @ added_ids cs = ?nz s0 @ added_ids (c # cs)"
    and re: "?re s1 @ added_ids cs = ?re s0 @ added_ids (c # cs)" by blast
  have "bld = Debug \<longrightarrow> list_all heading_ok cs \<and> distinct (?nz s1 @ added_ids cs)"
    using Cons.prems(2) nz by simp
  from Cons.IH [OF okcs this] obtain s where "run bld cs s1 = Some s"
    and "?nz s = ?nz s1 @ added_ids cs" and "?re s = ?re s1 @ added_ids cs" by blast
  with p nz re show ?case by simp
qed

text \<open>
  C5. For every sequence of \<^verbatim>\<open>addItem\<close> calls with pairwise distinct non-zero
  ids and non-empty texts, interleaved with \<^verbatim>\<open>addSeparator\<close> and
  \<^verbatim>\<open>addSectionHeading\<close> calls, run on a new combo box: the run ends (in a debug
  build when no heading is empty), \<^verbatim>\<open>getNumItems()\<close> is the number of \<^verbatim>\<open>addItem\<close>
  calls, and \<^verbatim>\<open>getItemId (indexOfItemId (id)) = id\<close> for every id added.
\<close>

theorem count_and_ids_after_adds:
  assumes ok: "list_all add_call_ok cs" and d: "distinct (added_ids cs)"
    and h: "bld = Debug \<longrightarrow> list_all heading_ok cs"
  shows "\<exists>s. run bld cs (newComboBox m) = Some s \<and>
           getNumItems s = int (length (added_ids cs)) \<and>
           (\<forall>i\<in>set (added_ids cs). getItemId s (indexOfItemId s i) = i)"
proof -
  have "bld = Debug \<longrightarrow> list_all heading_ok cs \<and>
      distinct (filter (\<lambda>i. i \<noteq> 0) (map itemId (items (newComboBox m))) @ added_ids cs)"
    using d h by (simp add: newComboBox_def)
  from run_adds [OF ok this] obtain s where r: "run bld cs (newComboBox m) = Some s"
    and re: "map itemId (filter isRealItem (items s)) = added_ids cs"
    by (auto simp: newComboBox_def)
  from re have "length (filter isRealItem (items s)) = length (added_ids cs)"
    by (metis length_map)
  then have n: "getNumItems s = int (length (added_ids cs))" by (simp add: getNumItems_count)
  have "\<forall>i\<in>set (added_ids cs). getItemId s (indexOfItemId s i) = i"
  proof
    fix i assume "i \<in> set (added_ids cs)"
    with re have "i \<in> itemId ` set (filter isRealItem (items s))" by (metis set_map)
    then have "\<exists>it\<in>set (items s). isRealItem it \<and> itemId it = i" by auto
    then show "getItemId s (indexOfItemId s i) = i" by (rule getItemId_indexOfItemId)
  qed
  with r n show ?thesis by blast
qed

theorem count_and_ids_after_adds_witness:
  "list_all add_call_ok [AddItem ''Red'' 1, AddItem ''Green'' 2, AddSeparator,
       AddSectionHeading ''More'', AddItem ''Blue'' 3] \<and>
   distinct (added_ids [AddItem ''Red'' 1, AddItem ''Green'' 2, AddSeparator,
       AddSectionHeading ''More'', AddItem ''Blue'' 3]) \<and>
   list_all heading_ok [AddItem ''Red'' 1, AddItem ''Green'' 2, AddSeparator,
       AddSectionHeading ''More'', AddItem ''Blue'' 3] \<and>
   (\<exists>s. run Debug [AddItem ''Red'' 1, AddItem ''Green'' 2, AddSeparator,
       AddSectionHeading ''More'', AddItem ''Blue'' 3] (newComboBox []) = Some s \<and>
      getNumItems s = 3 \<and>
      getItemId s (indexOfItemId s 1) = 1 \<and>
      getItemId s (indexOfItemId s 2) = 2 \<and>
      getItemId s (indexOfItemId s 3) = 3)"
proof -
  let ?cs = "[AddItem ''Red'' 1, AddItem ''Green'' 2, AddSeparator,
       AddSectionHeading ''More'', AddItem ''Blue'' 3]"
  have a: "list_all add_call_ok ?cs" by (simp add: add_call_ok_def)
  have b: "distinct (added_ids ?cs)" by simp
  have c: "list_all heading_ok ?cs" by (simp add: heading_ok_def)
  from count_and_ids_after_adds [OF a b, of Debug "[]"] c a b show ?thesis by simp
qed

subsection \<open>C6: a separator is only queued\<close>

lemma filter_update_irrelevant:
  "\<not> P (xs ! i) \<Longrightarrow> \<not> P y \<Longrightarrow> filter P (xs[i := y]) = filter P xs"
proof (induction xs arbitrary: i)
  case Nil
  then show ?case by simp
next
  case (Cons x xs)
  then show ?case by (cases i) simp_all
qed

lemma perform_no_new_separator:
  assumes p: "perform bld c s = Some s'"
    and na: "\<forall>t i. c \<noteq> AddItem t i" and nh: "\<forall>h. c \<noteq> AddSectionHeading h"
  shows "length (items s') \<le> length (items s) \<and>
         length (filter (\<lambda>it. itemId it = 0 \<and> name it = []) (items s')) \<le>
         length (filter (\<lambda>it. itemId it = 0 \<and> name it = []) (items s))"
proof (cases "selection_call c")
  case True
  with p show ?thesis by (simp add: perform_selection_items)
next
  case False
  show ?thesis
  proof (cases c)
    case (AddItem t i)
    with na show ?thesis by simp
  next
    case (AddSectionHeading h)
    with nh show ?thesis by simp
  next
    case AddSeparator
    with p show ?thesis by (auto simp: addSeparator_def)
  next
    case (SetItemEnabled w b)
    with p have s': "s' = setItemEnabled w b s" by simp
    from setItemEnabled_items [of w b s] show ?thesis unfolding s'
      by (auto simp: filter_update_irrelevant)
  next
    case (ChangeItemText w t)
    with p have "items s' = items s \<or>
      (\<exists>i<length (items s). itemId (items s ! i) = w \<and> w \<noteq> 0 \<and>
         items s' = (items s)[i := (items s ! i)\<lparr>name := t\<rparr>])"
      by (auto dest: changeItemText_Some)
    then show ?thesis by (auto simp: filter_update_irrelevant)
  next
    case (Clear d)
    with p show ?thesis by auto
  qed (use False in \<open>simp_all add: selection_call_def\<close>)
qed

text \<open>
  C6. \<^verbatim>\<open>addSeparator\<close> leaves the store as it is and only sets the pending flag
  (when the store is not empty); \<^verbatim>\<open>clear\<close> right after it leaves an empty store
  and no pending separator; the next \<^verbatim>\<open>addItem\<close> or \<^verbatim>\<open>addSectionHeading\<close> that
  appends puts the separator entry (id 0, empty name) before its own entry; and
  no other call lengthens the store or adds an entry with id 0 and empty name.
\<close>

theorem separator_is_lazy:
  "items (addSeparator s) = items s \<and>
   separatorPending (addSeparator s) = (items s \<noteq> []) \<and>
   items (clear d (addSeparator s)) = [] \<and>
   \<not> separatorPending (clear d (addSeparator s)) \<and>
   (items s \<noteq> [] \<and> t \<noteq> [] \<and> i \<noteq> 0 \<and> (bld = Debug \<longrightarrow> getItemForId s i = None) \<longrightarrow>
      (\<exists>s'. addItem bld t i (addSeparator s) = Some s' \<and> \<not> separatorPending s' \<and>
         items s' = items s @
           [separatorEntry, \<lparr>name = t, itemId = i, isEnabled = True, isHeading = False\<rparr>])) \<and>
   (items s \<noteq> [] \<and> h \<noteq> [] \<longrightarrow>
      (\<exists>s'. addSectionHeading bld h (addSeparator s) = Some s' \<and> \<not> separatorPending s' \<and>
         items s' = items s @
           [separatorEntry, \<lparr>name = h, itemId = 0, isEnabled = True, isHeading = True\<rparr>])) \<and>
   (perform bld c s = Some s' \<and> (\<forall>t i. c \<noteq> AddItem t i) \<and> (\<forall>h. c \<noteq> AddSectionHeading h) \<longrightarrow>
      length (items s') \<le> length (items s) \<and>
      length (filter (\<lambda>it. itemId it = 0 \<and> name it = []) (items s')) \<le>
      length (filter (\<lambda>it. itemId it = 0 \<and> name it = []) (items s)))"
proof -
  have a: "items (addSeparator s) = items s \<and> separatorPending (addSeparator s) = (items s \<noteq> [])"
    by (simp add: addSeparator_def)
  have b: "items (clear d (addSeparator s)) = [] \<and> \<not> separatorPending (clear d (addSeparator s))"
    by simp
  have g: "getItemForId (addSeparator s) i = getItemForId s i"
    by (simp add: getItemForId_def addSeparator_def)
  have c: "items s \<noteq> [] \<and> t \<noteq> [] \<and> i \<noteq> 0 \<and> (bld = Debug \<longrightarrow> getItemForId s i = None) \<longrightarrow>
      (\<exists>s'. addItem bld t i (addSeparator s) = Some s' \<and> \<not> separatorPending s' \<and>
         items s' = items s @
           [separatorEntry, \<lparr>name = t, itemId = i, isEnabled = True, isHeading = False\<rparr>])"
    using g by (cases bld) (auto simp: addItem_def addSeparator_def separatorEntry_def Let_def)
  have e: "items s \<noteq> [] \<and> h \<noteq> [] \<longrightarrow>
      (\<exists>s'. addSectionHeading bld h (addSeparator s) = Some s' \<and> \<not> separatorPending s' \<and>
         items s' = items s @
           [separatorEntry, \<lparr>name = h, itemId = 0, isEnabled = True, isHeading = True\<rparr>])"
    by (cases bld) (auto simp: addSectionHeading_def addSeparator_def separatorEntry_def Let_def)
  have f: "perform bld c s = Some s' \<and> (\<forall>t i. c \<noteq> AddItem t i) \<and> (\<forall>h. c \<noteq> AddSectionHeading h) \<longrightarrow>
      length (items s') \<le> length (items s) \<and>
      length (filter (\<lambda>it. itemId it = 0 \<and> name it = []) (items s')) \<le>
      length (filter (\<lambda>it. itemId it = 0 \<and> name it = []) (items s))"
    using perform_no_new_separator [of bld c s s'] by blast
  from a b c e f show ?thesis by blast
qed

theorem separator_is_lazy_witness:
  "\<exists>s. run Release [AddItem ''Red'' 1] (newComboBox []) = Some s \<and>
     items (addSeparator s) = items s \<and>
     separatorPending (addSeparator s) \<and>
     items (clear False (addSeparator s)) = [] \<and>
     \<not> separatorPending (clear False (addSeparator s)) \<and>
     map_option (\<lambda>s'. map (\<lambda>it. (name it, itemId it)) (items s'))
       (addItem Release ''Blue'' 3 (addSeparator s)) = Some [(''Red'', 1), ([], 0), (''Blue'', 3)] \<and>
     map_option (\<lambda>s'. map (\<lambda>it. (name it, itemId it)) (items s'))
       (addSectionHeading Release ''More'' (addSeparator s)) =
         Some [(''Red'', 1), ([], 0), (''More'', 0)] \<and>
     length (items (setItemEnabled 1 False s)) \<le> length (items s)"
proof -
  let ?S = "\<lparr>items = [\<lparr>name = ''Red'', itemId = 1, isEnabled = True, isHeading = False\<rparr>],
        currentId = 0, lastCurrentId = 0, separatorPending = False, menuActive = False,
        label = \<lparr>labelText = [], labelEditable = False\<rparr>,
        noChoicesMessage = [], updatePending = False\<rparr>"
  have r: "run Release [AddItem ''Red'' 1] (newComboBox []) = Some ?S" by code_simp
  note t = separator_is_lazy [where s = ?S and d = False and t = "''Blue''" and i = 3
      and bld = Release and h = "''More''" and c = "SetItemEnabled 1 False"
      and s' = "setItemEnabled 1 False ?S"]
  from t have a: "items (addSeparator ?S) = items ?S" by blast
  from t have b: "separatorPending (addSeparator ?S)" by simp
  from t have c: "items (clear False (addSeparator ?S)) = []" by blast
  from t have d: "\<not> separatorPending (clear False (addSeparator ?S))" by blast
  from t have e: "map_option (\<lambda>s'. map (\<lambda>it. (name it, itemId it)) (items s'))
       (addItem Release ''Blue'' 3 (addSeparator ?S)) = Some [(''Red'', 1), ([], 0), (''Blue'', 3)]"
    by (auto simp: separatorEntry_def)
  from t have f: "map_option (\<lambda>s'. map (\<lambda>it. (name it, itemId it)) (items s'))
       (addSectionHeading Release ''More'' (addSeparator ?S)) =
         Some [(''Red'', 1), ([], 0), (''More'', 0)]"
    by (auto simp: separatorEntry_def)
  from t have g: "length (items (setItemEnabled 1 False ?S)) \<le> length (items ?S)" by simp
  show ?thesis by (intro exI [of _ ?S] conjI r a b c d e f g)
qed

subsection \<open>C7: the selected index is derived\<close>








subsection \<open>C8: the popup menu\<close>

lemma showPopup_loop_map:
  "showPopup_loop xs sel menu =
     menu @ map (\<lambda>item. if isSeparator item then MenuSeparator
                         else if isHeading item then MenuSectionHeader (name item)
                         else MenuItem (itemId item) (name item) (isEnabled item)
                                (itemId item = sel)) xs"
  by (induction xs arbitrary: menu) simp_all

text \<open>
  C8. When no menu is active, \<^verbatim>\<open>showPopup\<close> builds a menu that lists the store
  in order: entry \<open>i\<close> of the menu is a separator when entry \<open>i\<close> of the store is
  a separator, a section header with its name when it is a heading, and for a
  real item an entry with its id, name and enabled flag, ticked exactly when its
  id is \<^verbatim>\<open>getSelectedId()\<close>. For an empty store the menu is the single disabled
  entry with the ``no choices'' message. (While a menu is active nothing is
  built; in a state that a run reaches no heading is a separator.)
\<close>

theorem popup_menu_lists_store:
  "(menuActive s \<longrightarrow> showPopup s = (None, s)) \<and>
   (\<not> menuActive s \<longrightarrow>
      (\<exists>menu. showPopup s = (Some menu, s\<lparr>menuActive := True\<rparr>) \<and>
         (items s = [] \<longrightarrow> menu = [MenuItem 1 (noChoicesMessage s) False False]) \<and>
         (items s \<noteq> [] \<longrightarrow> length menu = length (items s)) \<and>
         (\<forall>i<length (items s).
            (isSeparator (items s ! i) \<longrightarrow> menu ! i = MenuSeparator) \<and>
            (\<not> isSeparator (items s ! i) \<and> isHeading (items s ! i) \<longrightarrow>
               menu ! i = MenuSectionHeader (name (items s ! i))) \<and>
            (isRealItem (items s ! i) \<longrightarrow>
               menu ! i = MenuItem (itemId (items s ! i)) (name (items s ! i))
                            (isEnabled (items s ! i))
                            (itemId (items s ! i) = getSelectedId s))))) \<and>
   (run bld cs (newComboBox m) = Some s \<longrightarrow>
      (\<forall>it\<in>set (items s). isHeading it \<longrightarrow> \<not> isSeparator it))"
proof -
  have a: "menuActive s \<longrightarrow> showPopup s = (None, s)" by (simp add: showPopup_def)
  have b: "\<not> menuActive s \<longrightarrow>
      (\<exists>menu. showPopup s = (Some menu, s\<lparr>menuActive := True\<rparr>) \<and>
         (items s = [] \<longrightarrow> menu = [MenuItem 1 (noChoicesMessage s) False False]) \<and>
         (items s \<noteq> [] \<longrightarrow> length menu = length (items s)) \<and>
         (\<forall>i<length (items s).
            (isSeparator (items s ! i) \<longrightarrow> menu ! i = MenuSeparator) \<and>
            (\<not> isSeparator (items s ! i) \<and> isHeading (items s ! i) \<longrightarrow>
               menu ! i = MenuSectionHeader (name (items s ! i))) \<and>
            (isRealItem (items s ! i) \<longrightarrow>
               menu ! i = MenuItem (itemId (items s ! i)) (name (items s ! i))
                            (isEnabled (items s ! i))
                            (itemId (items s ! i) = getSelectedId s))))"
    by (auto simp: showPopup_def showPopup_loop_map Let_def isRealItem_def isSeparator_def)
  have c: "run bld cs (newComboBox m) = Some s \<longrightarrow>
      (\<forall>it\<in>set (items s). isHeading it \<longrightarrow> \<not> isSeparator it)"
  proof
    assume "run bld cs (newComboBox m) = Some s"
    then have "\<forall>it\<in>set (items s). item_ok it" by (simp add: run_items_ok)
    then show "\<forall>it\<in>set (items s). isHeading it \<longrightarrow> \<not> isSeparator it"
      by (simp add: item_ok_def isSeparator_def)
  qed
  from a b c show ?thesis by blast
qed

theorem popup_menu_lists_store_witness:
  "(\<exists>s. run Release [AddItem ''Red'' 1, AddItem ''Green'' 2, AddSeparator,
          AddSectionHeading ''More'', AddItem ''Blue'' 3, SetItemEnabled 1 False,
          SetSelectedId 2 False] (newComboBox ''(no choices)'') = Some s \<and>
      showPopup s =
        (Some [MenuItem 1 ''Red'' False False, MenuItem 2 ''Green'' True True, MenuSeparator,
               MenuSectionHeader ''More'', MenuItem 3 ''Blue'' True False],
         s\<lparr>menuActive := True\<rparr>) \<and>
      showPopup (s\<lparr>menuActive := True\<rparr>) = (None, s\<lparr>menuActive := True\<rparr>)) \<and>
   showPopup (newComboBox ''(no choices)'') =
     (Some [MenuItem 1 ''(no choices)'' False False],
      (newComboBox ''(no choices)'')\<lparr>menuActive := True\<rparr>)"
proof -
  let ?cs = "[AddItem ''Red'' 1, AddItem ''Green'' 2, AddSeparator,
          AddSectionHeading ''More'', AddItem ''Blue'' 3, SetItemEnabled 1 False,
          SetSelectedId 2 False]"
  let ?S = "\<lparr>items =
        [\<lparr>name = ''Red'', itemId = 1, isEnabled = False, isHeading = False\<rparr>,
         \<lparr>name = ''Green'', itemId = 2, isEnabled = True, isHeading = False\<rparr>,
         \<lparr>name = [], itemId = 0, isEnabled = False, isHeading = False\<rparr>,
         \<lparr>name = ''More'', itemId = 0, isEnabled = True, isHeading = True\<rparr>,
         \<lparr>name = ''Blue'', itemId = 3, isEnabled = True, isHeading = False\<rparr>],
        currentId = 2, lastCurrentId = 2, separatorPending = False, menuActive = False,
        label = \<lparr>labelText = ''Green'', labelEditable = False\<rparr>,
        noChoicesMessage = ''(no choices)'', updatePending = True\<rparr>"
  have r: "run Release ?cs (newComboBox ''(no choices)'') = Some ?S" by code_simp
  have g: "getSelectedId ?S = 2" by code_simp
  from popup_menu_lists_store [of ?S Release ?cs "''(no choices)''"] r
  obtain menu where m: "showPopup ?S = (Some menu, ?S\<lparr>menuActive := True\<rparr>)"
    and l: "length menu = 5"
    and e: "\<forall>i<5.
            (isSeparator (items ?S ! i) \<longrightarrow> menu ! i = MenuSeparator) \<and>
            (\<not> isSeparator (items ?S ! i) \<and> isHeading (items ?S ! i) \<longrightarrow>
               menu ! i = MenuSectionHeader (name (items ?S ! i))) \<and>
            (isRealItem (items ?S ! i) \<longrightarrow>
               menu ! i = MenuItem (itemId (items ?S ! i)) (name (items ?S ! i))
                            (isEnabled (items ?S ! i))
                            (itemId (items ?S ! i) = getSelectedId ?S))"
    by auto
  from e [rule_format, of 0] e [rule_format, of 1] e [rule_format, of 2]
       e [rule_format, of 3] e [rule_format, of 4]
  have "menu ! 0 = MenuItem 1 ''Red'' False False \<and> menu ! 1 = MenuItem 2 ''Green'' True True \<and>
        menu ! 2 = MenuSeparator \<and> menu ! 3 = MenuSectionHeader ''More'' \<and>
        menu ! 4 = MenuItem 3 ''Blue'' True False"
    unfolding g by (simp add: isSeparator_def isRealItem_def)
  with l have "menu = [MenuItem 1 ''Red'' False False, MenuItem 2 ''Green'' True True, MenuSeparator,
               MenuSectionHeader ''More'', MenuItem 3 ''Blue'' True False]"
    by (simp add: list_eq_iff_nth_eq less_Suc_eq numeral_eq_Suc)
  with m have a: "showPopup ?S =
        (Some [MenuItem 1 ''Red'' False False, MenuItem 2 ''Green'' True True, MenuSeparator,
               MenuSectionHeader ''More'', MenuItem 3 ''Blue'' True False],
         ?S\<lparr>menuActive := True\<rparr>)" by simp
  from popup_menu_lists_store [of "?S\<lparr>menuActive := True\<rparr>" Release "[]" "[]"]
  have b: "showPopup (?S\<lparr>menuActive := True\<rparr>) = (None, ?S\<lparr>menuActive := True\<rparr>)" by simp
  from popup_menu_lists_store [of "newComboBox ''(no choices)''" Release "[]" "''(no choices)''"]
  have c: "showPopup (newComboBox ''(no choices)'') =
     (Some [MenuItem 1 ''(no choices)'' False False],
      (newComboBox ''(no choices)'')\<lparr>menuActive := True\<rparr>)"
    by (auto simp: newComboBox_def)
  from r a b have "\<exists>s. run Release ?cs (newComboBox ''(no choices)'') = Some s \<and>
      showPopup s =
        (Some [MenuItem 1 ''Red'' False False, MenuItem 2 ''Green'' True True, MenuSeparator,
               MenuSectionHeader ''More'', MenuItem 3 ''Blue'' True False],
         s\<lparr>menuActive := True\<rparr>) \<and>
      showPopup (s\<lparr>menuActive := True\<rparr>) = (None, s\<lparr>menuActive := True\<rparr>)"
    by (intro exI [of _ ?S] conjI)
  with c show ?thesis by (intro conjI)
qed

subsection \<open>C9 and C10: separators and the selection after a rename\<close>

text \<open>
  As long as no \<^verbatim>\<open>changeItemText\<close> call passes an empty text, the store of a
  reachable state never begins or ends with a separator and never has two
  separators next to each other, and a non-zero \<^verbatim>\<open>getSelectedId()\<close> is the id
  of a real item.
\<close>

lemma adjacent_free_snoc_False: "adjacent_free (bs @ [False]) = adjacent_free bs"
  by (induction bs rule: adjacent_free.induct) simp_all

lemma adjacent_free_snoc_True:
  "bs \<noteq> [] \<Longrightarrow> \<not> last bs \<Longrightarrow> adjacent_free (bs @ [True]) = adjacent_free bs"
  by (induction bs rule: adjacent_free.induct) (auto split: if_splits)

lemma separators_apart_append_item:
  assumes "separators_apart xs" and "\<not> isSeparator x"
  shows "separators_apart (xs @ [x])"
proof -
  have "map isSeparator (xs @ [x]) = map isSeparator xs @ [False]"
    using assms(2) by simp
  then have "adjacent_free (map isSeparator (xs @ [x])) = adjacent_free (map isSeparator xs)"
    by (simp only: adjacent_free_snoc_False)
  with assms show ?thesis by (simp add: separators_apart_def hd_append)
qed

lemma separators_apart_append_separator:
  assumes "separators_apart xs" and "xs \<noteq> []" and "\<not> isSeparator x"
  shows "separators_apart (xs @ [separatorEntry, x])"
proof -
  from assms have l: "\<not> last (map isSeparator xs)" by (simp add: separators_apart_def last_map)
  have "isSeparator separatorEntry" by (simp add: isSeparator_def separatorEntry_def)
  then have "map isSeparator (xs @ [separatorEntry, x]) = (map isSeparator xs @ [True]) @ [False]"
    using assms(3) by simp
  then have "adjacent_free (map isSeparator (xs @ [separatorEntry, x])) =
      adjacent_free (map isSeparator xs @ [True])"
    by (simp only: adjacent_free_snoc_False)
  also have "\<dots> = adjacent_free (map isSeparator xs)"
    using l assms(2) by (simp add: adjacent_free_snoc_True)
  finally show ?thesis using assms by (simp add: separators_apart_def hd_append)
qed

lemma separators_apart_update:
  assumes "separators_apart xs" and "i < length xs" and "isSeparator y = isSeparator (xs ! i)"
  shows "separators_apart (xs[i := y])"
proof -
  have m: "map isSeparator (xs[i := y]) = map isSeparator xs"
    using assms(2,3) by (simp add: map_update list_update_same_conv)
  have "xs \<noteq> []" using assms(2) by auto
  then have "isSeparator (hd (xs[i := y])) = isSeparator (hd xs) \<and>
      isSeparator (last (xs[i := y])) = isSeparator (last xs)"
    by (metis m hd_map last_map list.map_disc_iff)
  with assms(1) m show ?thesis by (simp add: separators_apart_def)
qed

lemma separators_apart_appended:
  assumes ok: "separators_apart xs" and pe: "pend \<longrightarrow> xs \<noteq> []" and x: "\<not> isSeparator x"
  shows "separators_apart (xs @ (if pend then [separatorEntry] else []) @ [x])"
  using assms
  by (auto intro: separators_apart_append_item separators_apart_append_separator)

lemma perform_separators_apart:
  assumes ok: "separators_apart (items s)" and se: "sep_inv s"
    and pe: "separatorPending s \<longrightarrow> items s \<noteq> []"
    and r: "rename_ok c" and p: "perform bld c s = Some s'"
  shows "separators_apart (items s')"
proof (cases "selection_call c")
  case True
  with ok p show ?thesis by (simp add: perform_selection_items)
next
  case False
  show ?thesis
  proof (cases c)
    case (AddItem t i)
    with p have a: "addItem bld t i s = Some s'" by simp
    show ?thesis
    proof (cases "t \<noteq> [] \<and> i \<noteq> 0")
      case True
      then have "\<not> isSeparator \<lparr>name = t, itemId = i, isEnabled = True, isHeading = False\<rparr>"
        by (simp add: isSeparator_def)
      with ok pe have "separators_apart (items s @ (if separatorPending s then [separatorEntry] else []) @
             [\<lparr>name = t, itemId = i, isEnabled = True, isHeading = False\<rparr>])"
        by (rule separators_apart_appended)
      with addItem_Some [OF a] True show ?thesis by simp
    next
      case False
      with addItem_Some [OF a] ok show ?thesis by auto
    qed
  next
    case (AddSectionHeading h)
    with p have a: "addSectionHeading bld h s = Some s'" by simp
    show ?thesis
    proof (cases "h \<noteq> []")
      case True
      then have "\<not> isSeparator \<lparr>name = h, itemId = 0, isEnabled = True, isHeading = True\<rparr>"
        by (simp add: isSeparator_def)
      with ok pe have "separators_apart (items s @ (if separatorPending s then [separatorEntry] else []) @
             [\<lparr>name = h, itemId = 0, isEnabled = True, isHeading = True\<rparr>])"
        by (rule separators_apart_appended)
      with addSectionHeading_Some [OF a] True show ?thesis by simp
    next
      case False
      with addSectionHeading_Some [OF a] ok show ?thesis by auto
    qed
  next
    case AddSeparator
    with ok p show ?thesis by (auto simp: addSeparator_def)
  next
    case (SetItemEnabled w b)
    with p have s': "s' = setItemEnabled w b s" by simp
    have "\<And>i. i < length (items s) \<Longrightarrow>
        separators_apart ((items s)[i := (items s ! i)\<lparr>isEnabled := b\<rparr>])"
      using ok by (rule separators_apart_update) (simp_all add: isSeparator_def)
    with setItemEnabled_items [of w b s] ok show ?thesis unfolding s' by auto
  next
    case (ChangeItemText w t)
    with r have t: "t \<noteq> []" by (simp add: rename_ok_def)
    from ChangeItemText p have "items s' = items s \<or>
      (\<exists>i<length (items s). itemId (items s ! i) = w \<and> w \<noteq> 0 \<and>
         items s' = (items s)[i := (items s ! i)\<lparr>name := t\<rparr>])"
      by (auto dest: changeItemText_Some)
    then show ?thesis
    proof
      assume "items s' = items s"
      with ok show ?thesis by simp
    next
      assume "\<exists>i<length (items s). itemId (items s ! i) = w \<and> w \<noteq> 0 \<and>
         items s' = (items s)[i := (items s ! i)\<lparr>name := t\<rparr>]"
      then obtain i where i: "i < length (items s)" and nz: "itemId (items s ! i) \<noteq> 0"
        and eq: "items s' = (items s)[i := (items s ! i)\<lparr>name := t\<rparr>]" by auto
      from se i nz have "\<not> isSeparator (items s ! i)" by (auto simp: sep_inv_def)
      with t have "isSeparator ((items s ! i)\<lparr>name := t\<rparr>) = isSeparator (items s ! i)"
        by (simp add: isSeparator_def)
      with ok i show ?thesis unfolding eq by (rule separators_apart_update)
    qed
  next
    case (Clear d)
    with p show ?thesis by (auto simp: separators_apart_def)
  qed (use False in \<open>simp_all add: selection_call_def\<close>)
qed

lemma run_separators_apart_gen:
  "separators_apart (items s) \<Longrightarrow> sep_inv s \<Longrightarrow> separatorPending s \<longrightarrow> items s \<noteq> [] \<Longrightarrow>
     list_all rename_ok cs \<Longrightarrow> run bld cs s = Some s' \<Longrightarrow> separators_apart (items s')"
proof (induction cs arbitrary: s)
  case Nil
  then show ?case by simp
next
  case (Cons c cs)
  from Cons.prems(5) obtain s1 where p: "perform bld c s = Some s1" and r: "run bld cs s1 = Some s'"
    by (auto split: option.splits)
  from Cons.prems(4) have rc: "rename_ok c" and rcs: "list_all rename_ok cs" by simp_all
  have "separators_apart (items s1)"
    using Cons.prems(1,2,3) rc p by (rule perform_separators_apart)
  moreover have "sep_inv s1" using Cons.prems(2) rc p by (rule perform_sep_inv)
  moreover have "separatorPending s1 \<longrightarrow> items s1 \<noteq> []"
    using Cons.prems(3) p by (rule perform_pending)
  ultimately show ?case using rcs r by (rule Cons.IH)
qed

lemma run_separators_apart:
  "list_all rename_ok cs \<Longrightarrow> run bld cs (newComboBox m) = Some s \<Longrightarrow>
     separators_apart (items s)"
  using run_separators_apart_gen [of "newComboBox m" cs bld s]
  by (simp add: separators_apart_def sep_inv_def newComboBox_def)

lemma run_selection_real:
  assumes r: "run bld cs (newComboBox m) = Some s"
  shows "getSelectedId s = 0 \<or>
         (\<exists>it\<in>set (items s). itemId it = getSelectedId s \<and> itemId it \<noteq> 0 \<and> \<not> isHeading it \<and>
            name it = getText s \<and> (list_all rename_ok cs \<longrightarrow> isRealItem it))"
proof (cases "getItemForId s (currentId s)")
  case None
  then show ?thesis by (simp add: getSelectedId_def)
next
  case (Some i)
  let ?it = "items s ! i"
  from Some have i: "i < length (items s)" and id: "itemId ?it = currentId s" and nz: "currentId s \<noteq> 0"
    by (simp_all add: getItemForId_Some)
  from i have mem: "?it \<in> set (items s)" by simp
  with r have "item_ok ?it" by (rule run_items_ok)
  with id nz have nh: "\<not> isHeading ?it" by (auto simp: item_ok_def)
  have re: "list_all rename_ok cs \<longrightarrow> name ?it \<noteq> []"
  proof
    assume "list_all rename_ok cs"
    moreover have "sep_inv (newComboBox m)" by (simp add: sep_inv_def newComboBox_def)
    ultimately have "sep_inv s" using r run_sep_inv by blast
    with mem id nz show "name ?it \<noteq> []" by (auto simp: sep_inv_def isSeparator_def)
  qed
  show ?thesis
  proof (cases "getText s = name ?it")
    case True
    with Some have "getSelectedId s = itemId ?it" by (simp add: getSelectedId_def)
    with mem id nz nh re True show ?thesis by (auto simp: isRealItem_def)
  next
    case False
    with Some show ?thesis by (simp add: getSelectedId_def)
  qed
qed

text \<open>
  C9 says that in every reachable state the store never begins with a
  separator and never holds two adjacent separators. \<^verbatim>\<open>changeItemText\<close> with an
  empty text, which no assertion and no guard excludes, empties the name of a
  real item, and \<^verbatim>\<open>isSeparator\<close> then holds of it: after \<^verbatim>\<open>addItem ("A", 1)\<close> and
  the rename the store begins with a separator, in a release and in a debug
  build; with a separator and a second item added before the rename the store
  has two separators side by side, and \<^verbatim>\<open>showPopup\<close> emits two separators in a
  row for it.
\<close>

theorem empty_rename_leaves_leading_and_adjacent_separators:
  "map_option (\<lambda>s. map isSeparator (items s))
     (run Release [AddItem ''A'' 1, ChangeItemText 1 ''''] (newComboBox [])) = Some [True] \<and>
   map_option (\<lambda>s. map isSeparator (items s))
     (run Debug [AddItem ''A'' 1, ChangeItemText 1 ''''] (newComboBox [])) = Some [True] \<and>
   map_option (\<lambda>s. map isSeparator (items s))
     (run Release [AddItem ''A'' 1, AddSeparator, AddItem ''B'' 2, ChangeItemText 1 '''']
        (newComboBox [])) = Some [True, True, False] \<and>
   map_option (\<lambda>s. fst (showPopup s))
     (run Release [AddItem ''A'' 1, AddSeparator, AddItem ''B'' 2, ChangeItemText 1 '''']
        (newComboBox [])) = Some (Some [MenuSeparator, MenuSeparator, MenuItem 2 ''B'' True False])"
  by code_simp

text \<open>
  C10 says that in every reachable state \<^verbatim>\<open>getSelectedId()\<close> is 0 or the id of a
  real item. After an item is renamed to the empty string, \<^verbatim>\<open>setSelectedId\<close> of
  its id makes \<^verbatim>\<open>getSelectedId()\<close> return 1 while the only entry of the store is
  a separator and no real item has id 1.
\<close>

theorem empty_rename_selects_a_separator:
  "map_option (\<lambda>s. (getSelectedId s, map (\<lambda>it. (isRealItem it, isSeparator it, itemId it)) (items s)))
     (run Release [AddItem ''A'' 1, ChangeItemText 1 '''', SetSelectedId 1 False] (newComboBox [])) =
   Some (1, [(False, True, 1)]) \<and>
   map_option (\<lambda>s. (getSelectedId s, map (\<lambda>it. (isRealItem it, isSeparator it, itemId it)) (items s)))
     (run Debug [AddItem ''A'' 1, ChangeItemText 1 '''', SetSelectedId 1 False] (newComboBox [])) =
   Some (1, [(False, True, 1)])"
  by code_simp

end
